theory Spec2Isabelle
  imports Complex_Main "HOL-Library.Multiset" "HOL-Library.Product_Lexorder"
begin

section \<open>Common conventions\<close>

text \<open>
  The notebooks compute with NumPy arrays of double-precision numbers. Arrays are lists,
  real-valued entries are \<^typ>\<open>real\<close> and complex-valued entries are \<^typ>\<open>complex\<close>.
  Arithmetic on them is exact, except in the section on the catalogue reduction in double
  precision, where every addition rounds. Every exception that a modelled statement can
  raise is a value of \<open>error\<close>.
\<close>

datatype error = IndexError | ValueError | ZeroDivisionError

text \<open>Sequencing of statements that may raise.\<close>

definition bind_err :: "error + 'a \<Rightarrow> ('a \<Rightarrow> error + 'b) \<Rightarrow> error + 'b" where
  "bind_err r f = (case r of Inl e \<Rightarrow> Inl e | Inr x \<Rightarrow> f x)"

text \<open>\<^verbatim>\<open>np.arange(n)\<close>: the integers \<open>0, ..., n - 1\<close>.\<close>

definition arange :: "nat \<Rightarrow> int list" where
  "arange n = map int [0..<n]"

text \<open>\<^verbatim>\<open>np.eye(n, m)\<close>: ones on the diagonal, zeros elsewhere.\<close>

definition eye :: "nat \<Rightarrow> nat \<Rightarrow> real list list" where
  "eye n m = map (\<lambda>i. map (\<lambda>j. if i = j then 1 else 0) [0..<m]) [0..<n]"

text \<open>
  An elementwise binary operation on two one-dimensional arrays with NumPy broadcasting:
  equal lengths combine entry by entry, an array of length one is stretched, any other
  pair of shapes raises \<^verbatim>\<open>ValueError\<close>.
\<close>

definition broadcastable :: "'a list \<Rightarrow> 'b list \<Rightarrow> bool" where
  "broadcastable xs ys \<longleftrightarrow> length xs = length ys \<or> length ys = 1 \<or> length xs = 1"

definition bcast :: "('a \<Rightarrow> 'b \<Rightarrow> 'c) \<Rightarrow> 'a list \<Rightarrow> 'b list \<Rightarrow> 'c list" where
  "bcast f xs ys =
     (if length xs = length ys then map2 f xs ys
      else if length ys = 1 then map (\<lambda>x. f x (ys ! 0)) xs
      else map (\<lambda>y. f (xs ! 0) y) ys)"

definition broadcast1 :: "('a \<Rightarrow> 'b \<Rightarrow> 'c) \<Rightarrow> 'a list \<Rightarrow> 'b list \<Rightarrow> error + 'c list" where
  "broadcast1 f xs ys = (if broadcastable xs ys then Inr (bcast f xs ys) else Inl ValueError)"

section \<open>Spectrum validation (galaxy shear notebook, analysis cell)\<close>

text \<open>
  \<^verbatim>\<open>nl = 4*np.pi/(nbar*npix)*sigma_e**2 * (l >= 2)\<close> with \<^verbatim>\<open>l = np.arange(lmax+1)\<close>.
  The expected count per pixel \<open>nbar\<close> is a parameter here, since the constant
  \<^verbatim>\<open>ARCMIN2_SPHERE\<close> it is computed from comes from the library. When \<open>nbar * npix\<close> is
  zero the quotient has no finite value (Python raises \<^verbatim>\<open>ZeroDivisionError\<close> on floats);
  this is the error of the model.
\<close>

definition nl :: "real \<Rightarrow> nat \<Rightarrow> real \<Rightarrow> nat \<Rightarrow> error + real list" where
  "nl nbar npix sigma_e lmax =
     (if nbar * real npix = 0 then Inl ZeroDivisionError
      else Inr (map (\<lambda>l. 4 * pi / (nbar * real npix) * sigma_e ^ 2 * (if 2 \<le> l then 1 else 0))
                (arange (lmax + 1))))"

text \<open>
  \<^verbatim>\<open>mm[:k, :] = v\<close> and \<^verbatim>\<open>mm[:, :k] = v\<close>: slice assignment of a scalar to the first
  \<open>k\<close> rows, respectively the first \<open>k\<close> columns; a slice is clipped to the array.
\<close>

definition set_rows :: "nat \<Rightarrow> 'a \<Rightarrow> 'a list list \<Rightarrow> 'a list list" where
  "set_rows k v m = map (map (\<lambda>_. v)) (take k m) @ drop k m"

definition set_cols :: "nat \<Rightarrow> 'a \<Rightarrow> 'a list list \<Rightarrow> 'a list list" where
  "set_cols k v m = map (\<lambda>row. map (\<lambda>_. v) (take k row) @ drop k row) m"

text \<open>
  \<^verbatim>\<open>mm = (1 - 1/(nbar*npix))*np.eye(lmax+1, lmax+1) + (l+1/2)/(nbar*npix)\<close> followed by
  \<^verbatim>\<open>mm[:2, :] = mm[:, :2] = 0\<close>. The row vector \<^verbatim>\<open>(l+1/2)/(nbar*npix)\<close> is broadcast
  over the rows of the matrix; the chained assignment stores into the targets from left
  to right.
\<close>

definition mm :: "real \<Rightarrow> nat \<Rightarrow> nat \<Rightarrow> error + real list list" where
  "mm nbar npix lmax =
     (if nbar * real npix = 0 then Inl ZeroDivisionError
      else Inr (set_cols 2 0 (set_rows 2 0
             (map (\<lambda>row. map2 (\<lambda>e l. (1 - 1 / (nbar * real npix)) * e
                                      + (real_of_int l + 1 / 2) / (nbar * real npix))
                            row (arange (lmax + 1)))
                  (eye (lmax + 1) (lmax + 1))))))"

text \<open>\<^verbatim>\<open>cls[1] - nl\<close>: the plotted simulation curve.\<close>

definition simulation :: "real list \<Rightarrow> real list \<Rightarrow> error + real list" where
  "simulation obs noise = broadcast1 (-) obs noise"

text \<open>
  \<^verbatim>\<open>v * m\<close> for a vector and a matrix: the vector is broadcast over the rows, so column
  \<open>j\<close> is scaled by \<open>v[j]\<close>.
\<close>

definition vec_times_rows :: "real list \<Rightarrow> real list list \<Rightarrow> error + real list list" where
  "vec_times_rows v m =
     (if \<forall>row \<in> set m. broadcastable v row then Inr (map (bcast (*) v) m)
      else Inl ValueError)"

text \<open>\<^verbatim>\<open>m @ x\<close> for a matrix and a vector; the inner dimensions have to agree.\<close>

definition matvec :: "real list list \<Rightarrow> real list \<Rightarrow> error + real list" where
  "matvec m x =
     (if \<forall>row \<in> set m. length row = length x
      then Inr (map (\<lambda>row. sum_list (map2 (*) row x)) m)
      else Inl ValueError)"

text \<open>
  \<^verbatim>\<open>pw**2 * mm@(fl*theory_cls['W1xW1'])\<close>: the plotted expectation curve. The operators
  \<^verbatim>\<open>*\<close> and \<^verbatim>\<open>@\<close> have the same precedence and associate to the left, so the squared
  pixel window scales the columns of the mixing matrix before the product with the
  theory spectrum.
\<close>

definition expectation ::
  "real list \<Rightarrow> real list list \<Rightarrow> real list \<Rightarrow> real list \<Rightarrow> error + real list" where
  "expectation pw mix fl theory =
     bind_err (vec_times_rows (map (\<lambda>p. p ^ 2) pw) mix) (\<lambda>a.
     bind_err (broadcast1 (*) fl theory) (\<lambda>x.
     matvec a x))"

section \<open>Galaxy cube (galaxy distribution notebook, simulation cell)\<close>

text \<open>
  \<^verbatim>\<open>np.linspace(start, stop, num)\<close>: \<open>num\<close> evenly spaced samples, computed as
  \<^verbatim>\<open>arange(0, num) * step + start\<close> with \<^verbatim>\<open>step = (stop - start)/(num - 1)\<close>, the last
  sample then being overwritten by \<open>stop\<close>.
\<close>

definition linspace :: "real \<Rightarrow> real \<Rightarrow> nat \<Rightarrow> real list" where
  "linspace start stop num =
     (if num = 0 then []
      else if num = 1 then [start]
      else (map (\<lambda>i. real i * ((stop - start) / real (num - 1)) + start) [0..<num])
             [num - 1 := stop])"

text \<open>
  \<^verbatim>\<open>np.searchsorted(a, v)\<close> with the default \<^verbatim>\<open>side='left'\<close>: a binary search for the
  insertion point of \<open>v\<close>, which moves right only over entries strictly below \<open>v\<close>.
\<close>

function searchsorted_loop :: "real list \<Rightarrow> real \<Rightarrow> nat \<Rightarrow> nat \<Rightarrow> nat" where
  "searchsorted_loop a v lo hi =
     (if lo < hi
      then (let mid = lo + (hi - lo) div 2
            in if a ! mid < v then searchsorted_loop a v (mid + 1) hi
               else searchsorted_loop a v lo mid)
      else lo)"
  by pat_completeness auto
termination
  by (relation "measure (\<lambda>(a, v, lo, hi). hi - lo)") auto

definition searchsorted :: "real list \<Rightarrow> real \<Rightarrow> nat" where
  "searchsorted a v = searchsorted_loop a v 0 (length a)"

text \<open>\<^verbatim>\<open>zcub = np.linspace(-zb[-1], zb[-1], 21)\<close>, with \<open>Z\<close> for \<^verbatim>\<open>zb[-1]\<close>.\<close>

definition zcub :: "real \<Rightarrow> real list" where
  "zcub Z = linspace (- Z) Z 21"

text \<open>\<^verbatim>\<open>np.searchsorted(zcub[1:], x)\<close>: the cell of one coordinate along one axis.\<close>

definition cube_bin :: "real \<Rightarrow> real \<Rightarrow> nat" where
  "cube_bin Z x = searchsorted (drop 1 (zcub Z)) x"

text \<open>\<^verbatim>\<open>np.deg2rad(x)\<close>.\<close>

definition deg2rad :: "real \<Rightarrow> real" where
  "deg2rad x = x * (pi / 180)"

text \<open>
  The Cartesian coordinates \<^verbatim>\<open>z1, z2, z3\<close> of one galaxy with redshift \<open>gal_z\<close>, longitude
  \<open>gal_lon\<close> and latitude \<open>gal_lat\<close> (both in degrees).
\<close>

definition cube_coords :: "real \<times> real \<times> real \<Rightarrow> real \<times> real \<times> real" where
  "cube_coords g = (case g of (gal_z, gal_lon, gal_lat) \<Rightarrow>
     (gal_z * cos (deg2rad gal_lon) * cos (deg2rad gal_lat),
      gal_z * sin (deg2rad gal_lon) * cos (deg2rad gal_lat),
      gal_z * sin (deg2rad gal_lat)))"

text \<open>The column of \<^verbatim>\<open>np.searchsorted(zcub[1:], [z1, z2, z3])\<close> that belongs to one galaxy.\<close>

definition cube_index :: "real \<Rightarrow> real \<times> real \<times> real \<Rightarrow> nat \<times> nat \<times> nat" where
  "cube_index Z g = (case cube_coords g of (z1, z2, z3) \<Rightarrow>
     (cube_bin Z z1, cube_bin Z z2, cube_bin Z z3))"

text \<open>
  \<^verbatim>\<open>np.unique(cols, axis=1, return_counts=True)\<close>: the distinct columns in lexicographic
  order, and how often each occurs.
\<close>

definition unique_counts :: "(nat \<times> nat \<times> nat) list \<Rightarrow> (nat \<times> nat \<times> nat) list \<times> nat list" where
  "unique_counts cols = (let u = sort (remdups cols) in (u, map (count_list cols) u))"

text \<open>\<^verbatim>\<open>np.zeros((n,)*3)\<close>, and reading and writing one cell of a three-dimensional array.\<close>

definition zeros3 :: "nat \<Rightarrow> real list list list" where
  "zeros3 n = replicate n (replicate n (replicate n 0))"

definition in_cube :: "real list list list \<Rightarrow> nat \<times> nat \<times> nat \<Rightarrow> bool" where
  "in_cube c idx = (case idx of (i, j, k) \<Rightarrow>
     i < length c \<and> j < length (c ! i) \<and> k < length (c ! i ! j))"

definition get3 :: "real list list list \<Rightarrow> nat \<times> nat \<times> nat \<Rightarrow> real" where
  "get3 c idx = (case idx of (i, j, k) \<Rightarrow> c ! i ! j ! k)"

definition set3 :: "real list list list \<Rightarrow> nat \<times> nat \<times> nat \<Rightarrow> real \<Rightarrow> real list list list" where
  "set3 c idx x = (case idx of (i, j, k) \<Rightarrow> c[i := (c ! i)[j := (c ! i ! j)[k := x]]])"

text \<open>
  \<^verbatim>\<open>cube[i, j, k] += c\<close> with index arrays: the addressed cells are read, the counts are
  added, and the sums are written back; an index outside the cube raises
  \<^verbatim>\<open>IndexError\<close>.
\<close>

definition cube_add ::
  "real list list list \<Rightarrow> (nat \<times> nat \<times> nat) list \<Rightarrow> nat list \<Rightarrow> error + real list list list" where
  "cube_add cube idxs c =
     (if \<forall>idx \<in> set idxs. in_cube cube idx
      then Inr (fold (\<lambda>(idx, x) cb. set3 cb idx x)
                  (zip idxs (map2 (\<lambda>x n. x + real n) (map (get3 cube) idxs) c)) cube)
      else Inl IndexError)"

text \<open>
  One pass of the inner loop body: the galaxies of a batch, given as triples of redshift,
  longitude and latitude, are binned and counted into the cube.
\<close>

definition cube_update ::
  "real \<Rightarrow> real list list list \<Rightarrow> (real \<times> real \<times> real) list \<Rightarrow> error + real list list list" where
  "cube_update Z cube batch =
     (case unique_counts (map (cube_index Z) batch) of (ijk, c) \<Rightarrow> cube_add cube ijk c)"

text \<open>The shape \<open>(n, n, n)\<close> of a three-dimensional array.\<close>

definition cube_shape :: "nat \<Rightarrow> real list list list \<Rightarrow> bool" where
  "cube_shape n c \<longleftrightarrow>
     length c = n \<and> (\<forall>i < n. length (c ! i) = n \<and> (\<forall>j < n. length (c ! i ! j) = n))"

section \<open>Catalogue reduction (galaxy shear notebook, simulation cell)\<close>

text \<open>
  The running aggregate: \<^verbatim>\<open>num\<close>, the map of galaxy numbers, and \<^verbatim>\<open>she\<close>, the map of
  summed shears, both indexed by pixel.
\<close>

type_synonym aggregate = "real list \<times> complex list"

text \<open>\<^verbatim>\<open>num = np.zeros(npix)\<close> and \<^verbatim>\<open>she = np.zeros(npix, dtype=complex)\<close>.\<close>

definition zeros :: "nat \<Rightarrow> aggregate" where
  "zeros npix = (replicate npix 0, replicate npix 0)"

text \<open>
  \<^verbatim>\<open>np.argsort(a)\<close>: positions of \<open>a\<close> in an order that sorts it. NumPy's default sort is
  not stable, so the order among equal entries is not fixed; \<open>sorts a s\<close> says that \<open>s\<close>
  is an admissible result, and \<open>argsort\<close> is the stable one.
\<close>

definition sorts :: "nat list \<Rightarrow> nat list \<Rightarrow> bool" where
  "sorts a s \<longleftrightarrow> sort s = [0..<length a] \<and> sorted (map (\<lambda>i. a ! i) s)"


text \<open>\<^verbatim>\<open>a[s]\<close> with an index array; a position outside \<open>a\<close> raises \<^verbatim>\<open>IndexError\<close>.\<close>

definition take_idx :: "'a list \<Rightarrow> nat list \<Rightarrow> error + 'a list" where
  "take_idx a s = (if \<forall>i \<in> set s. i < length a then Inr (map (\<lambda>i. a ! i) s) else Inl IndexError)"

text \<open>
  \<^verbatim>\<open>np.unique(a, return_index=True, return_counts=True)\<close>: the distinct values in
  ascending order, the position of the first occurrence of each, and how often each
  occurs.
\<close>

definition first_index :: "nat list \<Rightarrow> nat \<Rightarrow> nat" where
  "first_index a u = length (takeWhile (\<lambda>x. x \<noteq> u) a)"

definition unique :: "nat list \<Rightarrow> nat list \<times> nat list \<times> nat list" where
  "unique a = (let u = sort (remdups a) in (u, map (first_index a) u, map (count_list a) u))"

text \<open>
  \<^verbatim>\<open>np.split(a, idx)\<close>: the sections of \<open>a\<close> between consecutive division points
  \<^verbatim>\<open>[0] + idx + [len(a)]\<close>, each taken as the slice \<^verbatim>\<open>a[st:end]\<close>.
\<close>

definition split_np :: "'a list \<Rightarrow> nat list \<Rightarrow> 'a list list" where
  "split_np a idx =
     (let div_points = 0 # idx @ [length a]
      in map (\<lambda>i. take (div_points ! (i + 1) - div_points ! i) (drop (div_points ! i) a))
           [0..<length idx + 1])"

text \<open>
  \<^verbatim>\<open>a[idx] += v\<close> with an index array: the addressed entries are read (a position outside
  \<open>a\<close> raises \<^verbatim>\<open>IndexError\<close>), \<open>v\<close> is added, broadcast from length one if need be, and the
  sums are stored back one position after the other; a value array of any other length
  raises \<^verbatim>\<open>ValueError\<close>.
\<close>

definition scatter :: "'a list \<Rightarrow> nat list \<Rightarrow> 'a list \<Rightarrow> 'a list" where
  "scatter a idx vals = fold (\<lambda>(i, x) b. b[i := x]) (zip idx vals) a"

definition iadd_at :: "('a::plus) list \<Rightarrow> nat list \<Rightarrow> 'a list \<Rightarrow> error + 'a list" where
  "iadd_at a idx v =
     (if \<exists>i \<in> set idx. length a \<le> i then Inl IndexError
      else if length v = length idx then Inr (scatter a idx (map2 (+) (map (\<lambda>i. a ! i) idx) v))
      else if length v = 1 then Inr (scatter a idx (map (\<lambda>i. a ! i + v ! 0) idx))
      else Inl ValueError)"

text \<open>
  The last four lines of the loop body, for a sorting permutation \<open>s\<close> of the pixel
  indices of the batch:
  \<^verbatim>\<open>pix, start, count = np.unique(gal_pix[s], return_index=True, return_counts=True)\<close>,
  \<^verbatim>\<open>num[pix] += count\<close>,
  \<^verbatim>\<open>she[pix] += list(map(np.sum, np.split(gal_she[s], start[1:])))\<close>.
  The array \<^verbatim>\<open>count\<close> is called \<open>counts\<close> here. The additions are those of the real and
  the complex numbers, without rounding; the loop body with the rounding of double
  precision is \<open>reduce_with64\<close> below.
\<close>

definition reduce_with ::
  "nat list \<Rightarrow> aggregate \<Rightarrow> nat list \<Rightarrow> complex list \<Rightarrow> error + aggregate" where
  "reduce_with s st gal_pix gal_she = (case st of (num, she) \<Rightarrow>
     bind_err (take_idx gal_pix s) (\<lambda>sorted_pix.
     case unique sorted_pix of (pix, start, counts) \<Rightarrow>
     bind_err (iadd_at num pix (map real counts)) (\<lambda>num'.
     bind_err (take_idx gal_she s) (\<lambda>sorted_she.
     bind_err (iadd_at she pix (map sum_list (split_np sorted_she (drop 1 start)))) (\<lambda>she'.
     Inr (num', she'))))))"


text \<open>
  The aggregates that the simulation loop can reach: it starts from zero maps and reduces
  one batch after the other, each with some admissible sorting permutation.
\<close>

inductive reachable :: "nat \<Rightarrow> aggregate \<Rightarrow> bool" for npix :: nat where
  start: "reachable npix (zeros npix)"
| batch: "reachable npix st \<Longrightarrow> sorts gal_pix s \<Longrightarrow>
          reduce_with s st gal_pix gal_she = Inr st' \<Longrightarrow> reachable npix st'"


text \<open>
  The aggregate in closed form: for every pixel, the number of points of a list that fall
  into the pixel and the sum of their values are added to what the maps hold.
\<close>

definition cnt :: "(nat \<times> complex) list \<Rightarrow> nat \<Rightarrow> nat" where
  "cnt pts p = length (filter (\<lambda>z. fst z = p) pts)"

definition gsum :: "(nat \<times> complex) list \<Rightarrow> nat \<Rightarrow> complex" where
  "gsum pts p = sum_list (map snd (filter (\<lambda>z. fst z = p) pts))"

definition agg :: "aggregate \<Rightarrow> (nat \<times> complex) list \<Rightarrow> aggregate" where
  "agg st pts = (case st of (num, she) \<Rightarrow>
     (map (\<lambda>p. num ! p + real (cnt pts p)) [0..<length num],
      map (\<lambda>p. she ! p + gsum pts p) [0..<length she]))"

text \<open>
  \<^verbatim>\<open>she /= nbar\<close> and \<^verbatim>\<open>num /= nbar\<close>: every entry is divided by the expected number of
  galaxies per pixel. NumPy raises nothing here; a division by zero leaves an infinity or
  a NaN in the array, which is the entry \<open>None\<close> of the model.
\<close>

definition div_np :: "('a::field) \<Rightarrow> 'a \<Rightarrow> 'a option" where
  "div_np x d = (if d = 0 then None else Some (x / d))"

definition normalise :: "real \<Rightarrow> aggregate \<Rightarrow> real option list \<times> complex option list" where
  "normalise nbar st = (case st of (num, she) \<Rightarrow>
     (map (\<lambda>x. div_np x nbar) num, map (\<lambda>z. div_np z (complex_of_real nbar)) she))"

section \<open>Catalogue reduction in double precision\<close>

text \<open>
  The entries of \<^verbatim>\<open>num\<close> and of the real and imaginary parts of \<^verbatim>\<open>she\<close> and \<^verbatim>\<open>gal_she\<close>
  are IEEE 754 binary64 numbers, and every addition of the loop body rounds its exact
  result to the nearest such number, ties to the one with an even significand. A double
  is represented by the real number it denotes; infinities and NaN have no
  representation, so an addition that overflows has the result \<open>None\<close>.
\<close>












section \<open>Shear transform\<close>

text \<open>
  Arithmetic on the 64-bit integers of a NumPy array: a result outside
  \<open>[-2\<^sup>6\<^sup>3, 2\<^sup>6\<^sup>3)\<close> wraps around.
\<close>

definition wrap64 :: "int \<Rightarrow> int" where
  "wrap64 x = (x + 2 ^ 63) mod 2 ^ 64 - 2 ^ 63"

definition add64 :: "int \<Rightarrow> int \<Rightarrow> int" where
  "add64 a b = wrap64 (a + b)"

definition sub64 :: "int \<Rightarrow> int \<Rightarrow> int" where
  "sub64 a b = wrap64 (a - b)"

definition mul64 :: "int \<Rightarrow> int \<Rightarrow> int" where
  "mul64 a b = wrap64 (a * b)"

text \<open>
  \<^verbatim>\<open>fl = (l+2)*(l+1)*l*(l-1)/np.clip(l**2*(l+1)**2, 1, None)\<close> with
  \<^verbatim>\<open>l = np.arange(lmax+1)\<close>: the factor that transforms a convergence spectrum into a shear
  spectrum. The entries of \<open>l\<close> are 64-bit integers, so numerator and denominator are
  computed with wrap-around; the quotient is a true division.
\<close>

definition fl :: "nat \<Rightarrow> real list" where
  "fl lmax = map (\<lambda>l. real_of_int (mul64 (mul64 (mul64 (add64 l 2) (add64 l 1)) l) (sub64 l 1))
                       / real_of_int (max (mul64 (mul64 l l) (mul64 (add64 l 1) (add64 l 1))) 1))
               (arange (lmax + 1))"



section \<open>Properties of the spectrum validation\<close>

lemma length_arange [simp]: "length (arange n) = n"
  by (simp add: arange_def)

lemma nth_arange [simp]: "i < n \<Longrightarrow> arange n ! i = int i"
  by (simp add: arange_def)

lemma length_eye [simp]: "length (eye n m) = n"
  by (simp add: eye_def)

lemma nth_eye [simp]: "i < n \<Longrightarrow> eye n m ! i = map (\<lambda>j. if i = j then 1 else 0) [0..<m]"
  by (simp add: eye_def)

lemma length_set_rows [simp]: "length (set_rows k v m) = length m"
  by (simp add: set_rows_def)

lemma length_set_cols [simp]: "length (set_cols k v m) = length m"
  by (simp add: set_cols_def)

lemma nth_set_rows:
  "i < length m \<Longrightarrow> set_rows k v m ! i = (if i < k then map (\<lambda>_. v) (m ! i) else m ! i)"
  by (auto simp: set_rows_def nth_append min_def)

lemma nth_set_cols:
  "i < length m \<Longrightarrow> j < length (m ! i) \<Longrightarrow>
   set_cols k v m ! i ! j = (if j < k then v else m ! i ! j)"
  by (auto simp: set_cols_def nth_append min_def)

lemma length_nth_set_rows [simp]:
  "i < length m \<Longrightarrow> length (set_rows k v m ! i) = length (m ! i)"
  by (simp add: nth_set_rows)

lemma length_nth_set_cols [simp]:
  "i < length m \<Longrightarrow> length (set_cols k v m ! i) = length (m ! i)"
  by (simp add: set_cols_def)

lemma sum_list_delta:
  fixes t :: "real list"
  assumes "i < length t"
  shows "sum_list (map2 (*) (map (\<lambda>j. if i = j then 1 else 0) [0..<length t]) t) = t ! i"
proof -
  have "map2 (*) (map (\<lambda>j. if i = j then 1 else 0) [0..<length t]) t
        = map (\<lambda>j. if i = j then t ! j else 0) [0..<length t]"
    by (rule nth_equalityI) auto
  then have "sum_list (map2 (*) (map (\<lambda>j. if i = j then 1 else 0) [0..<length t]) t)
        = (\<Sum>j = 0..<length t. if i = j then t ! j else 0)"
    by (simp add: interv_sum_list_conv_sum_set_nat)
  also have "\<dots> = t ! i"
    using assms by simp
  finally show ?thesis .
qed

lemma rows_eye: "\<forall>row \<in> set (eye n m). length row = m"
  by (auto simp: eye_def)

lemma matvec_rows:
  "\<forall>row \<in> set m. length row = length x \<Longrightarrow>
   matvec m x = Inr (map (\<lambda>row. sum_list (map2 (*) row x)) m)"
  unfolding matvec_def by (rule if_P)

lemma matvec_eye: "matvec (eye (length t) (length t)) t = Inr t"
proof -
  have m: "map (\<lambda>row. sum_list (map2 (*) row t)) (eye (length t) (length t)) = t"
    by (rule nth_equalityI) (simp_all add: sum_list_delta)
  have "matvec (eye (length t) (length t)) t
        = Inr (map (\<lambda>row. sum_list (map2 (*) row t)) (eye (length t) (length t)))"
    by (rule matvec_rows) (rule rows_eye)
  then show ?thesis
    by (simp only: m)
qed

lemma simulation_zero_noise: "simulation t (replicate (length t) 0) = Inr t"
proof -
  have m: "map2 (-) t (replicate (length t) 0) = t"
    by (rule nth_equalityI) simp_all
  show ?thesis
    by (simp add: simulation_def broadcast1_def broadcastable_def bcast_def m)
qed

lemma vec_times_rows_eye:
  "vec_times_rows v (eye (length v) (length v))
   = Inr (map (\<lambda>i. map (\<lambda>j. if i = j then v ! i else 0) [0..<length v]) [0..<length v])"
proof -
  have row: "bcast (*) v (map (\<lambda>j. if i = j then 1 else 0) [0..<length v])
        = map (\<lambda>j. if i = j then v ! i else 0) [0..<length v]" for i
    unfolding bcast_def by (simp, intro nth_equalityI) simp_all
  have "map (bcast (*) v) (eye (length v) (length v))
        = map (\<lambda>i. map (\<lambda>j. if i = j then v ! i else 0) [0..<length v]) [0..<length v]"
    by (rule nth_equalityI) (simp_all add: row)
  moreover have "\<forall>row \<in> set (eye (length v) (length v)). broadcastable v row"
    by (auto simp: eye_def broadcastable_def)
  ultimately show ?thesis
    by (simp add: vec_times_rows_def)
qed

lemma sum_list_scaled_delta:
  fixes x :: "real list"
  assumes "i < length x"
  shows "sum_list (map2 (*) (map (\<lambda>j. if i = j then c else 0) [0..<length x]) x) = c * x ! i"
proof -
  have "map2 (*) (map (\<lambda>j. if i = j then c else 0) [0..<length x]) x
        = map (\<lambda>j. if i = j then c * x ! j else 0) [0..<length x]"
    by (rule nth_equalityI) auto
  then have "sum_list (map2 (*) (map (\<lambda>j. if i = j then c else 0) [0..<length x]) x)
        = (\<Sum>j = 0..<length x. if i = j then c * x ! j else 0)"
    by (simp add: interv_sum_list_conv_sum_set_nat)
  also have "\<dots> = c * x ! i"
    using assms by simp
  finally show ?thesis .
qed

lemma expectation_eye:
  assumes "length pw = n" "length fac = n" "length theory = n"
  shows "expectation pw (eye n n) fac theory
         = Inr (map (\<lambda>i. (pw ! i) ^ 2 * (fac ! i * theory ! i)) [0..<n])"
proof -
  let ?v = "map (\<lambda>p. p ^ 2) pw"
  let ?x = "map2 (*) fac theory"
  let ?a = "map (\<lambda>i. map (\<lambda>j. if i = j then ?v ! i else 0) [0..<n]) [0..<n]"
  have a: "vec_times_rows ?v (eye n n) = Inr ?a"
    using vec_times_rows_eye [of ?v] assms by simp
  have x: "broadcast1 (*) fac theory = Inr ?x"
    using assms by (simp add: broadcast1_def broadcastable_def bcast_def)
  have len: "length ?x = n"
    using assms by simp
  have rows: "\<forall>row \<in> set ?a. length row = length ?x"
    using len by auto
  have "map (\<lambda>row. sum_list (map2 (*) row ?x)) ?a
        = map (\<lambda>i. (pw ! i) ^ 2 * (fac ! i * theory ! i)) [0..<n]"
  proof (rule nth_equalityI)
    show "length (map (\<lambda>row. sum_list (map2 (*) row ?x)) ?a)
          = length (map (\<lambda>i. (pw ! i) ^ 2 * (fac ! i * theory ! i)) [0..<n])"
      by simp
  next
    fix i assume "i < length (map (\<lambda>row. sum_list (map2 (*) row ?x)) ?a)"
    then have i: "i < n" by simp
    have "sum_list (map2 (*) (map (\<lambda>j. if i = j then ?v ! i else 0) [0..<length ?x]) ?x)
          = ?v ! i * ?x ! i"
      using i len by (intro sum_list_scaled_delta) simp
    then show "map (\<lambda>row. sum_list (map2 (*) row ?x)) ?a ! i
          = map (\<lambda>i. (pw ! i) ^ 2 * (fac ! i * theory ! i)) [0..<n] ! i"
      using i assms len by simp
  qed
  moreover have "matvec ?a ?x = Inr (map (\<lambda>row. sum_list (map2 (*) row ?x)) ?a)"
    using rows by (rule matvec_rows)
  ultimately have "matvec ?a ?x = Inr (map (\<lambda>i. (pw ! i) ^ 2 * (fac ! i * theory ! i)) [0..<n])"
    by (simp only:)
  then show ?thesis
    unfolding expectation_def by (simp only: a x bind_err_def sum.case)
qed


subsection \<open>Debiasing identity\<close>

text \<open>
  Claim C4. Let the theoretical spectrum be the pixel-window-corrected theory curve
  \<open>pw\<^sup>2 \<cdot> fl \<cdot> cl\<close>. If the observed spectrum equals it, the noise estimate is zero at
  every multipole and the mixing matrix is the identity, then subtracting the noise from
  the observed spectrum returns the theoretical spectrum, the product of the mixing matrix
  with the theoretical spectrum returns it unchanged, and so does the expectation curve
  exactly as the notebook writes it.
\<close>

theorem debias_identity:
  assumes "length pw = n" "length fac = n" "length cl = n"
    and "th = map (\<lambda>i. (pw ! i) ^ 2 * (fac ! i * cl ! i)) [0..<n]"
    and "observed = th" "noise = replicate n 0" "mix = eye n n"
  shows "simulation observed noise = Inr th \<and> matvec mix th = Inr th
         \<and> expectation pw mix fac cl = Inr th"
proof -
  have n: "length th = n"
    using assms(4) by simp
  have "simulation observed noise = Inr th"
    using simulation_zero_noise [of th] assms(5,6) n by simp
  moreover have "matvec mix th = Inr th"
    using matvec_eye [of th] assms(7) n by simp
  moreover have "expectation pw mix fac cl = Inr th"
    using expectation_eye [OF assms(1-3)] assms(4,7) by simp
  ultimately show ?thesis by simp
qed

text \<open>The identity at three multipoles.\<close>

theorem debias_identity_witness:
  "simulation [0, 0, 3] [0, 0, 0] = Inr [0, 0, 3]
   \<and> matvec (eye 3 3) [0, 0, 3] = Inr [0, 0, 3]
   \<and> expectation [1, 1, 1] (eye 3 3) [0, 0, 1 / 2] [4, 5, 6] = Inr [0, 0, 3]"
  using debias_identity [of "[1, 1, 1]" 3 "[0, 0, 1 / 2]" "[4, 5, 6]" "[0, 0, 3]" "[0, 0, 3]"
      "[0, 0, 0]" "eye 3 3"]
  by (simp add: upt_rec numeral_3_eq_3)

subsection \<open>Monopole and dipole entries\<close>

text \<open>
  Claim C5. Whenever the expected total count \<open>nbar \<cdot> npix\<close> is not zero, the noise
  estimate and the mixing matrix are computed without an exception, have \<open>lmax + 1\<close>
  entries per axis, the noise estimate is nonzero only at multipoles \<open>l \<ge> 2\<close> (so its
  entries at \<open>l = 0\<close> and \<open>l = 1\<close> are zero), and every entry of the mixing matrix in a
  row or a column below 2 is zero.
\<close>

theorem degenerate_modes_zero:
  assumes "nbar * real npix \<noteq> 0"
  shows "\<exists>v M. nl nbar npix sigma_e lmax = Inr v \<and> mm nbar npix lmax = Inr M
           \<and> length v = lmax + 1 \<and> length M = lmax + 1
           \<and> (\<forall>row \<in> set M. length row = lmax + 1)
           \<and> (\<forall>l \<le> lmax. v ! l \<noteq> 0 \<longrightarrow> 2 \<le> l)
           \<and> (\<forall>i \<le> lmax. \<forall>j \<le> lmax. i < 2 \<or> j < 2 \<longrightarrow> M ! i ! j = 0)"
proof -
  let ?N = "nbar * real npix"
  let ?v = "map (\<lambda>l. 4 * pi / ?N * sigma_e ^ 2 * (if 2 \<le> l then 1 else 0)) (arange (lmax + 1))"
  let ?B = "map (\<lambda>row. map2 (\<lambda>e l. (1 - 1 / ?N) * e + (real_of_int l + 1 / 2) / ?N)
                            row (arange (lmax + 1))) (eye (lmax + 1) (lmax + 1))"
  let ?M = "set_cols 2 0 (set_rows 2 0 ?B)"
  have v: "nl nbar npix sigma_e lmax = Inr ?v"
    using assms by (simp add: nl_def)
  have M: "mm nbar npix lmax = Inr ?M"
    using assms by (simp add: mm_def)
  have lenB: "length ?B = lmax + 1"
    by simp
  have rowB: "length (?B ! i) = lmax + 1" if "i \<le> lmax" for i
    using that by simp
  have rowR: "length (set_rows 2 0 ?B ! i) = lmax + 1" if "i \<le> lmax" for i
    using that rowB [of i] by (simp add: nth_set_rows)
  have rowM: "length (?M ! i) = lmax + 1" if "i \<le> lmax" for i
    using that rowR [of i] by simp
  have rows: "\<forall>row \<in> set ?M. length row = lmax + 1"
  proof
    fix row assume "row \<in> set ?M"
    then obtain i where "i < length ?M" "row = ?M ! i"
      by (metis in_set_conv_nth)
    then show "length row = lmax + 1"
      using rowM [of i] by simp
  qed
  have noise: "\<forall>l \<le> lmax. ?v ! l \<noteq> 0 \<longrightarrow> 2 \<le> l"
    by (auto split: if_splits)
  have zero: "?M ! i ! j = 0" if "i \<le> lmax" "j \<le> lmax" "i < 2 \<or> j < 2" for i j
  proof -
    have "?M ! i ! j = (if j < 2 then 0 else set_rows 2 0 ?B ! i ! j)"
      using that rowR [of i] by (intro nth_set_cols) simp_all
    also have "\<dots> = 0"
    proof (cases "j < 2")
      case True
      then show ?thesis by simp
    next
      case False
      with that have "i < 2" by simp
      then have "set_rows 2 0 ?B ! i = map (\<lambda>_. 0) (?B ! i)"
        using that lenB by (simp only: nth_set_rows if_True)
      moreover have "j < length (?B ! i)"
        using that rowB [of i] by simp
      ultimately have "set_rows 2 0 ?B ! i ! j = 0"
        by (simp only: nth_map)
      then show ?thesis by simp
    qed
    finally show ?thesis .
  qed
  show ?thesis
    using v M rows noise zero by (intro exI [of _ ?v] exI [of _ ?M]) simp
qed

text \<open>The statement at \<open>nbar = 1\<close>, \<open>npix = 12\<close>, \<open>lmax = 3\<close>.\<close>

theorem degenerate_modes_zero_witness:
  "(1::real) * real (12::nat) \<noteq> 0 \<and>
   (\<exists>v M. nl 1 12 1 3 = Inr v \<and> mm 1 12 3 = Inr M
           \<and> length v = 3 + 1 \<and> length M = 3 + 1
           \<and> (\<forall>row \<in> set M. length row = 3 + 1)
           \<and> (\<forall>l \<le> 3. v ! l \<noteq> 0 \<longrightarrow> 2 \<le> l)
           \<and> (\<forall>i \<le> 3. \<forall>j \<le> 3. i < 2 \<or> j < 2 \<longrightarrow> M ! i ! j = 0))"
  using degenerate_modes_zero [of 1 12 1 3] by simp



section \<open>Properties of the galaxy cube\<close>

subsection \<open>Binary search on a sorted array\<close>

declare searchsorted_loop.simps [simp del]

lemma searchsorted_loop_spec:
  assumes "sorted a" "lo \<le> hi" "hi \<le> length a"
    and "\<forall>k < lo. a ! k < v" and "\<forall>k. hi \<le> k \<and> k < length a \<longrightarrow> v \<le> a ! k"
  shows "searchsorted_loop a v lo hi \<le> length a
         \<and> (\<forall>k < searchsorted_loop a v lo hi. a ! k < v)
         \<and> (\<forall>k. searchsorted_loop a v lo hi \<le> k \<and> k < length a \<longrightarrow> v \<le> a ! k)"
  using assms
proof (induction a v lo hi rule: searchsorted_loop.induct)
  case (1 a v lo hi)
  show ?case
  proof (cases "lo < hi")
    case False
    have eq: "searchsorted_loop a v lo hi = lo"
      using False by (simp add: searchsorted_loop.simps [of a v lo hi])
    from False "1.prems" have "lo = hi" by simp
    with "1.prems" show ?thesis
      unfolding eq by simp
  next
    case True
    define mid where "mid = lo + (hi - lo) div 2"
    have mid: "lo \<le> mid" "mid < hi"
      using True by (simp_all add: mid_def) 
    show ?thesis
    proof (cases "a ! mid < v")
      case below: True
      have left: "\<forall>k < mid + 1. a ! k < v"
      proof (intro allI impI)
        fix k assume "k < mid + 1"
        then have "k \<le> mid" by simp
        then have "a ! k \<le> a ! mid"
          using \<open>sorted a\<close> mid "1.prems"(3) by (intro sorted_nth_mono) simp_all
        with below show "a ! k < v" by simp
      qed
      have eq: "searchsorted_loop a v lo hi = searchsorted_loop a v (mid + 1) hi"
        using True below by (simp add: searchsorted_loop.simps [of a v lo hi] mid_def Let_def)
      have "mid + 1 \<le> hi" using mid by simp
      note ih = "1.IH"(1) [OF True mid_def below \<open>sorted a\<close> this "1.prems"(3) left "1.prems"(5)]
      show ?thesis
        unfolding eq by (rule ih)
    next
      case notbelow: False
      have right: "\<forall>k. mid \<le> k \<and> k < length a \<longrightarrow> v \<le> a ! k"
      proof (intro allI impI)
        fix k assume k: "mid \<le> k \<and> k < length a"
        then have "a ! mid \<le> a ! k"
          using \<open>sorted a\<close> by (intro sorted_nth_mono) simp_all
        with notbelow show "v \<le> a ! k" by simp
      qed
      have eq: "searchsorted_loop a v lo hi = searchsorted_loop a v lo mid"
        using True notbelow by (simp add: searchsorted_loop.simps [of a v lo hi] mid_def Let_def)
      have "mid \<le> length a" using mid "1.prems"(3) by simp
      note ih = "1.IH"(2) [OF True mid_def notbelow \<open>sorted a\<close> mid(1) this "1.prems"(4) right]
      show ?thesis
        unfolding eq by (rule ih)
    qed
  qed
qed

lemma searchsorted_spec:
  assumes "sorted a"
  shows "searchsorted a v \<le> length a"
    and "\<forall>k < searchsorted a v. a ! k < v"
    and "\<forall>k. searchsorted a v \<le> k \<and> k < length a \<longrightarrow> v \<le> a ! k"
  using searchsorted_loop_spec [of a 0 "length a" v] assms
  unfolding searchsorted_def by simp_all

lemma searchsorted_unique:
  assumes "i \<le> length a" "\<forall>k < i. a ! k < v" "\<forall>k. i \<le> k \<and> k < length a \<longrightarrow> v \<le> a ! k"
    and "sorted a"
  shows "searchsorted a v = i"
proof (rule ccontr)
  let ?r = "searchsorted a v"
  assume neq: "?r \<noteq> i"
  note r = searchsorted_spec [OF \<open>sorted a\<close>, of v]
  show False
  proof (cases "?r < i")
    case True
    then have "a ! ?r < v" "v \<le> a ! ?r"
      using assms(1,2) r(3) by auto
    then show False by simp
  next
    case False
    with neq have "i < ?r" by simp
    then have "a ! i < v" "v \<le> a ! i"
      using assms(3) r(1,2) by auto
    then show False by simp
  qed
qed

lemma searchsorted_iff:
  assumes "sorted a" "i < length a"
  shows "searchsorted a v = i \<longleftrightarrow> (i = 0 \<or> a ! (i - 1) < v) \<and> v \<le> a ! i"
proof
  assume eq: "searchsorted a v = i"
  note r = searchsorted_spec [OF \<open>sorted a\<close>, of v]
  show "(i = 0 \<or> a ! (i - 1) < v) \<and> v \<le> a ! i"
    using r(2,3) assms(2) unfolding eq by (cases i) auto
next
  assume h: "(i = 0 \<or> a ! (i - 1) < v) \<and> v \<le> a ! i"
  have left: "\<forall>k < i. a ! k < v"
  proof (intro allI impI)
    fix k assume k: "k < i"
    then have "a ! k \<le> a ! (i - 1)"
      using assms by (intro sorted_nth_mono) simp_all
    with h k show "a ! k < v" by auto
  qed
  have right: "\<forall>k. i \<le> k \<and> k < length a \<longrightarrow> v \<le> a ! k"
  proof (intro allI impI)
    fix k assume k: "i \<le> k \<and> k < length a"
    then have "a ! i \<le> a ! k"
      using assms by (intro sorted_nth_mono) simp_all
    with h show "v \<le> a ! k" by simp
  qed
  show "searchsorted a v = i"
    using assms left right by (intro searchsorted_unique) simp_all
qed


subsection \<open>The edges of the cube\<close>

lemma length_linspace [simp]: "length (linspace a b n) = n"
  by (simp add: linspace_def)

lemma length_zcub [simp]: "length (zcub Z) = 21"
  by (simp add: zcub_def)

lemma nth_zcub: "i \<le> 20 \<Longrightarrow> zcub Z ! i = real i * (Z / 10) - Z"
  by (cases "i = 20") (simp_all add: zcub_def linspace_def nth_list_update)

lemma sorted_zcub: "0 \<le> Z \<Longrightarrow> sorted (zcub Z)"
  by (auto simp: sorted_iff_nth_mono nth_zcub intro!: mult_right_mono)

lemma length_uppers [simp]: "length (drop 1 (zcub Z)) = 20"
  by simp

lemma nth_uppers: "i < 20 \<Longrightarrow> drop 1 (zcub Z) ! i = zcub Z ! (i + 1)"
  by simp

lemma sorted_uppers: "0 \<le> Z \<Longrightarrow> sorted (drop 1 (zcub Z))"
  by (simp add: sorted_zcub sorted_wrt_drop)

lemma zcub_last: "zcub Z ! 20 = Z"
  by (simp add: nth_zcub)

lemma zcub_strict: "0 < Z \<Longrightarrow> i < 20 \<Longrightarrow> zcub Z ! i < zcub Z ! (i + 1)"
  by (simp add: nth_zcub algebra_simps)

lemma cube_bin_iff:
  assumes "0 \<le> Z" "i < 20"
  shows "cube_bin Z x = i \<longleftrightarrow> (i = 0 \<or> zcub Z ! i < x) \<and> x \<le> zcub Z ! (i + 1)"
proof -
  have "cube_bin Z x = i \<longleftrightarrow>
        (i = 0 \<or> drop 1 (zcub Z) ! (i - 1) < x) \<and> x \<le> drop 1 (zcub Z) ! i"
    unfolding cube_bin_def using assms by (intro searchsorted_iff sorted_uppers) simp_all
  moreover have "drop 1 (zcub Z) ! i = zcub Z ! (i + 1)"
    using assms by (simp add: nth_uppers)
  moreover have "drop 1 (zcub Z) ! (i - 1) = zcub Z ! i" if "i \<noteq> 0"
    using assms that nth_uppers [of "i - 1" Z] by simp
  ultimately show ?thesis by (cases "i = 0") simp_all
qed

lemma cube_bin_less:
  assumes "0 \<le> Z" "x \<le> Z"
  shows "cube_bin Z x < 20"
proof (rule ccontr)
  assume "\<not> cube_bin Z x < 20"
  moreover have "cube_bin Z x \<le> 20"
    using searchsorted_spec(1) [OF sorted_uppers [OF assms(1)], of x] by (simp add: cube_bin_def)
  ultimately have r: "cube_bin Z x = 20" by simp
  have "\<forall>k < cube_bin Z x. drop 1 (zcub Z) ! k < x"
    unfolding cube_bin_def by (rule searchsorted_spec(2) [OF sorted_uppers [OF assms(1)]])
  then have "19 < cube_bin Z x \<longrightarrow> drop 1 (zcub Z) ! 19 < x"
    by (rule spec)
  then have "drop 1 (zcub Z) ! 19 < x"
    unfolding r by simp
  then have "Z < x"
    using nth_uppers [of 19 Z] zcub_last [of Z] by simp
  with assms show False by simp
qed

subsection \<open>Points on a cell boundary\<close>

text \<open>
  Claim C7, as the code has it. For a positive outer boundary \<open>Z\<close>, cell \<open>i\<close> of an axis
  holds the coordinates \<open>x\<close> with \<open>zcub[i] < x \<le> zcub[i+1]\<close> (cell 0 also holds everything
  below the first edge): cells are closed at the upper edge. A coordinate equal to the
  upper edge of cell \<open>i\<close> is assigned to cell \<open>i\<close> itself, for every cell.
\<close>

theorem cube_bin_closed_upper:
  assumes "0 < Z" "i < 20"
  shows "(cube_bin Z x = i \<longleftrightarrow> (i = 0 \<or> zcub Z ! i < x) \<and> x \<le> zcub Z ! (i + 1))
         \<and> cube_bin Z (zcub Z ! (i + 1)) = i"
proof -
  have Z: "0 \<le> Z" using assms by simp
  have "cube_bin Z (zcub Z ! (i + 1)) = i"
    using cube_bin_iff [OF Z assms(2), of "zcub Z ! (i + 1)"] zcub_strict [OF assms] by simp
  with cube_bin_iff [OF Z assms(2), of x] show ?thesis by simp
qed

text \<open>Cell 0 of the cube with edges \<open>-10, -9, ..., 10\<close>.\<close>

theorem cube_bin_closed_upper_witness:
  "(0::real) < 10 \<and> (0::nat) < 20
   \<and> (cube_bin 10 (- 9) = 0 \<longleftrightarrow> (0 = (0::nat) \<or> zcub 10 ! 0 < - 9) \<and> - 9 \<le> zcub 10 ! (0 + 1))
   \<and> cube_bin 10 (zcub 10 ! (0 + 1)) = 0"
  using cube_bin_closed_upper [of 10 0 "- 9"] by simp

text \<open>
  The coordinate \<open>-9\<close> is the upper edge of cell 0 of that cube. It is binned into cell 0
  and not into the next cell, so the membership test is not \<open>coordinate < upper_edge\<close>.
\<close>

theorem cube_bin_boundary_counterexample:
  "zcub 10 ! 1 = - 9 \<and> cube_bin 10 (- 9) = 0 \<and> cube_bin 10 (- 9) \<noteq> 1"
  by code_simp


subsection \<open>Galaxies within the outer boundary stay inside the cube\<close>

lemma abs_scaled_le:
  fixes z c d :: real
  assumes "0 \<le> z" "z \<le> Z" "\<bar>c\<bar> \<le> 1" "\<bar>d\<bar> \<le> 1"
  shows "\<bar>z * c * d\<bar> \<le> Z"
proof -
  have "\<bar>z * c * d\<bar> = z * (\<bar>c\<bar> * \<bar>d\<bar>)"
    using assms(1) by (simp add: abs_mult)
  also have "\<bar>c\<bar> * \<bar>d\<bar> \<le> 1 * 1"
    using assms(3,4) by (intro mult_mono) simp_all
  then have "z * (\<bar>c\<bar> * \<bar>d\<bar>) \<le> z * 1"
    using assms(1) by (intro mult_left_mono) simp_all
  finally show ?thesis using assms(2) by simp
qed

lemma cube_coords_bounded:
  assumes "0 \<le> gal_z" "gal_z \<le> Z"
  shows "case cube_coords (gal_z, gal_lon, gal_lat) of
           (z1, z2, z3) \<Rightarrow> \<bar>z1\<bar> \<le> Z \<and> \<bar>z2\<bar> \<le> Z \<and> \<bar>z3\<bar> \<le> Z"
proof -
  have "\<bar>gal_z * cos (deg2rad gal_lon) * cos (deg2rad gal_lat)\<bar> \<le> Z"
    using assms by (intro abs_scaled_le) simp_all
  moreover have "\<bar>gal_z * sin (deg2rad gal_lon) * cos (deg2rad gal_lat)\<bar> \<le> Z"
    using assms by (intro abs_scaled_le) simp_all
  moreover have "\<bar>gal_z * sin (deg2rad gal_lat) * 1\<bar> \<le> Z"
    using assms by (intro abs_scaled_le) simp_all
  ultimately show ?thesis
    by (simp add: cube_coords_def)
qed

lemma cube_index_bounded:
  assumes "0 \<le> gal_z" "gal_z \<le> Z"
  shows "case cube_index Z (gal_z, gal_lon, gal_lat) of (i, j, k) \<Rightarrow> i < 20 \<and> j < 20 \<and> k < 20"
proof -
  obtain z1 z2 z3 where c: "cube_coords (gal_z, gal_lon, gal_lat) = (z1, z2, z3)"
    by (metis prod_cases3)
  have Z: "0 \<le> Z" using assms by simp
  have "\<bar>z1\<bar> \<le> Z \<and> \<bar>z2\<bar> \<le> Z \<and> \<bar>z3\<bar> \<le> Z"
    using cube_coords_bounded [OF assms, of gal_lon gal_lat] c by simp
  then have "z1 \<le> Z" "z2 \<le> Z" "z3 \<le> Z"
    by linarith+
  then have "cube_bin Z z1 < 20" "cube_bin Z z2 < 20" "cube_bin Z z3 < 20"
    using Z by (simp_all add: cube_bin_less)
  then show ?thesis
    by (simp add: cube_index_def c)
qed

lemma set_unique_counts: "set (fst (unique_counts cols)) = set cols"
  by (simp add: unique_counts_def Let_def)

lemma cube_shape_set3:
  assumes "cube_shape n c"
  shows "cube_shape n (set3 c idx x)"
proof -
  obtain a b d where idx: "idx = (a, b, d)" by (metis prod_cases3)
  let ?row = "(c ! a ! b)[d := x]"
  let ?plane = "(c ! a)[b := ?row]"
  have len: "length c = n"
    and plane: "\<And>i. i < n \<Longrightarrow> length (c ! i) = n"
    and row: "\<And>i j. i < n \<Longrightarrow> j < n \<Longrightarrow> length (c ! i ! j) = n"
    using assms by (simp_all add: cube_shape_def)
  have "length (c[a := ?plane] ! i) = n \<and> (\<forall>j < n. length (c[a := ?plane] ! i ! j) = n)"
    if i: "i < n" for i
  proof (cases "a = i")
    case False
    then show ?thesis using i plane row by simp
  next
    case True
    have p: "c[a := ?plane] ! i = ?plane"
      using True i len by simp
    have "length (?plane ! j) = n" if j: "j < n" for j
      using j i True plane [of i] row [of i j] by (cases "b = j") simp_all
    then show ?thesis
      unfolding p using plane [OF i] True by simp
  qed
  then show ?thesis
    using len by (simp add: cube_shape_def set3_def idx)
qed

lemma cube_shape_fold:
  "cube_shape n c \<Longrightarrow> cube_shape n (fold (\<lambda>(idx, x) cb. set3 cb idx x) ps c)"
  by (induction ps arbitrary: c) (auto simp: cube_shape_set3)

lemma cube_add_ok:
  assumes "cube_shape n cube" "\<forall>idx \<in> set idxs. case idx of (i, j, k) \<Rightarrow> i < n \<and> j < n \<and> k < n"
  shows "\<exists>cube'. cube_add cube idxs c = Inr cube' \<and> cube_shape n cube'"
proof -
  have "\<forall>idx \<in> set idxs. in_cube cube idx"
    using assms by (auto simp: in_cube_def cube_shape_def)
  then have "cube_add cube idxs c
        = Inr (fold (\<lambda>(idx, x) cb. set3 cb idx x)
                 (zip idxs (map2 (\<lambda>x n. x + real n) (map (get3 cube) idxs) c)) cube)"
    unfolding cube_add_def by (rule if_P)
  then show ?thesis
    using cube_shape_fold [OF assms(1)] by simp
qed

lemma cube_shape_zeros3: "cube_shape n (zeros3 n)"
  by (simp add: cube_shape_def zeros3_def)

text \<open>
  Claim C9. Let every galaxy of a batch have a redshift \<open>gal_z\<close> with
  \<open>0 \<le> gal_z \<le> Z\<close>, where \<open>Z\<close> is the outer shell boundary \<^verbatim>\<open>zb[-1]\<close>, and let the cube
  have shape \<open>(20, 20, 20)\<close>. Then each of the three Cartesian coordinates of every galaxy
  lies in \<open>[-Z, Z]\<close>, each of its three cell indices is below 20, and the update of the
  cube raises no \<^verbatim>\<open>IndexError\<close> and returns a cube of the same shape.
\<close>

theorem cube_update_in_bounds:
  assumes "cube_shape 20 cube"
    and "\<forall>g \<in> set batch. 0 \<le> fst g \<and> fst g \<le> Z"
  shows "(\<forall>g \<in> set batch. case cube_coords g of
            (z1, z2, z3) \<Rightarrow> \<bar>z1\<bar> \<le> Z \<and> \<bar>z2\<bar> \<le> Z \<and> \<bar>z3\<bar> \<le> Z)
         \<and> (\<forall>g \<in> set batch. case cube_index Z g of (i, j, k) \<Rightarrow> i < 20 \<and> j < 20 \<and> k < 20)
         \<and> (\<exists>cube'. cube_update Z cube batch = Inr cube' \<and> cube_shape 20 cube')"
proof -
  have coords: "\<forall>g \<in> set batch. case cube_coords g of
            (z1, z2, z3) \<Rightarrow> \<bar>z1\<bar> \<le> Z \<and> \<bar>z2\<bar> \<le> Z \<and> \<bar>z3\<bar> \<le> Z"
  proof
    fix g assume g: "g \<in> set batch"
    obtain z lon lat where [simp]: "g = (z, lon, lat)" by (metis prod_cases3)
    show "case cube_coords g of (z1, z2, z3) \<Rightarrow> \<bar>z1\<bar> \<le> Z \<and> \<bar>z2\<bar> \<le> Z \<and> \<bar>z3\<bar> \<le> Z"
      using assms(2) g cube_coords_bounded [of z Z lon lat] by auto
  qed
  have idx: "\<forall>g \<in> set batch. case cube_index Z g of (i, j, k) \<Rightarrow> i < 20 \<and> j < 20 \<and> k < 20"
  proof
    fix g assume g: "g \<in> set batch"
    obtain z lon lat where [simp]: "g = (z, lon, lat)" by (metis prod_cases3)
    show "case cube_index Z g of (i, j, k) \<Rightarrow> i < 20 \<and> j < 20 \<and> k < 20"
      using assms(2) g cube_index_bounded [of z Z lon lat] by auto
  qed
  obtain ijk c where u: "unique_counts (map (cube_index Z) batch) = (ijk, c)"
    by (metis surj_pair)
  have "set ijk = cube_index Z ` set batch"
    using set_unique_counts [of "map (cube_index Z) batch"] u by simp
  with idx have "\<forall>idx \<in> set ijk. case idx of (i, j, k) \<Rightarrow> i < 20 \<and> j < 20 \<and> k < 20"
    by auto
  then have "\<exists>cube'. cube_add cube ijk c = Inr cube' \<and> cube_shape 20 cube'"
    by (rule cube_add_ok [OF assms(1)])
  then have "\<exists>cube'. cube_update Z cube batch = Inr cube' \<and> cube_shape 20 cube'"
    by (simp add: cube_update_def u)
  with coords idx show ?thesis by blast
qed

text \<open>One galaxy in an empty cube with outer boundary 1.\<close>

theorem cube_update_in_bounds_witness:
  "cube_shape 20 (zeros3 20) \<and> (0::real) \<le> 1 / 2 \<and> 1 / 2 \<le> (1::real)
   \<and> (case cube_coords (1 / 2, 0, 0) of (z1, z2, z3) \<Rightarrow> \<bar>z1\<bar> \<le> 1 \<and> \<bar>z2\<bar> \<le> 1 \<and> \<bar>z3\<bar> \<le> 1)
   \<and> (case cube_index 1 (1 / 2, 0, 0) of (i, j, k) \<Rightarrow> i < 20 \<and> j < 20 \<and> k < 20)
   \<and> (\<exists>cube'. cube_update 1 (zeros3 20) [(1 / 2, 0, 0)] = Inr cube' \<and> cube_shape 20 cube')"
  using cube_update_in_bounds [of "zeros3 20" "[(1 / 2, 0, 0)]" 1]
  by (simp add: cube_shape_zeros3)

section \<open>Properties of the catalogue reduction\<close>

subsection \<open>The closed form and the linear scan\<close>

lemma cnt_Nil [simp]: "cnt [] p = 0"
  by (simp add: cnt_def)

lemma gsum_Nil [simp]: "gsum [] p = 0"
  by (simp add: gsum_def)

lemma cnt_Cons: "cnt ((q, v) # pts) p = (if q = p then 1 else 0) + cnt pts p"
  by (simp add: cnt_def)


lemma cnt_append: "cnt (a @ b) p = cnt a p + cnt b p"
  by (simp add: cnt_def)

lemma gsum_append: "gsum (a @ b) p = gsum a p + gsum b p"
  by (simp add: gsum_def)

lemma cnt_mset: "cnt pts p = size (filter_mset (\<lambda>z. fst z = p) (mset pts))"
  by (simp add: cnt_def flip: mset_filter)

lemma gsum_mset: "gsum pts p = sum_mset (image_mset snd (filter_mset (\<lambda>z. fst z = p) (mset pts)))"
  by (simp add: gsum_def sum_mset_sum_list flip: mset_filter mset_map)

lemma cnt_cong: "mset pts = mset pts' \<Longrightarrow> cnt pts = cnt pts'"
  by (rule ext) (simp add: cnt_mset)

lemma gsum_cong: "mset pts = mset pts' \<Longrightarrow> gsum pts = gsum pts'"
  by (rule ext) (simp add: gsum_mset)

lemma agg_cong: "mset pts = mset pts' \<Longrightarrow> agg st pts = agg st pts'"
  by (simp add: agg_def cnt_cong [of pts pts'] gsum_cong [of pts pts'])

lemma cnt_zero: "p \<notin> fst ` set pts \<Longrightarrow> cnt pts p = 0"
  by (auto simp: cnt_def filter_empty_conv)

lemma gsum_zero: "p \<notin> fst ` set pts \<Longrightarrow> gsum pts p = 0"
proof -
  assume "p \<notin> fst ` set pts"
  then have "filter (\<lambda>z. fst z = p) pts = []"
    by (auto simp: filter_empty_conv)
  then show ?thesis by (simp add: gsum_def)
qed

lemma agg_Nil [simp]: "agg (num, she) [] = (num, she)"
  by (simp add: agg_def map_nth)

lemma length_agg [simp]:
  "length (fst (agg (num, she) pts)) = length num" "length (snd (agg (num, she) pts)) = length she"
  by (simp_all add: agg_def)

lemma agg_append: "agg (agg st a) b = agg st (a @ b)"
  by (cases st) (simp add: agg_def cnt_append gsum_append add.assoc)




subsection \<open>Storing through an index array\<close>

lemma scatter_Nil [simp]: "scatter a [] vals = a"
  by (simp add: scatter_def)

lemma scatter_Cons: "scatter a (i # idx) (x # vals) = scatter (a[i := x]) idx vals"
  by (simp add: scatter_def)

lemma scatter_map:
  assumes "distinct idx" "\<forall>i \<in> set idx. i < length a"
  shows "scatter a idx (map g idx) = map (\<lambda>p. if p \<in> set idx then g p else a ! p) [0..<length a]"
  using assms
proof (induction idx arbitrary: a)
  case Nil
  show ?case by (simp add: map_nth)
next
  case (Cons i idx)
  have "scatter (a[i := g i]) idx (map g idx)
        = map (\<lambda>p. if p \<in> set idx then g p else a[i := g i] ! p) [0..<length (a[i := g i])]"
    using Cons.prems by (intro Cons.IH) simp_all
  also have "\<dots> = map (\<lambda>p. if p \<in> set (i # idx) then g p else a ! p) [0..<length a]"
    using Cons.prems by (intro nth_equalityI) (auto simp: nth_list_update)
  finally show ?case
    by (simp add: scatter_Cons)
qed

lemma iadd_at_map:
  fixes a :: "('a::plus) list"
  assumes "distinct idx" "\<forall>i \<in> set idx. i < length a"
  shows "iadd_at a idx (map f idx)
         = Inr (map (\<lambda>p. if p \<in> set idx then a ! p + f p else a ! p) [0..<length a])"
proof -
  have "map2 (+) (map (\<lambda>i. a ! i) idx) (map f idx) = map (\<lambda>i. a ! i + f i) idx"
    by (induction idx) simp_all
  moreover have "\<not> (\<exists>i \<in> set idx. length a \<le> i)"
    using assms(2) by auto
  ultimately have "iadd_at a idx (map f idx) = Inr (scatter a idx (map (\<lambda>i. a ! i + f i) idx))"
    by (simp add: iadd_at_def)
  then show ?thesis
    by (simp add: scatter_map [OF assms])
qed

lemma iadd_at_empty:
  fixes a :: "('a::plus) list"
  shows "iadd_at a [] [x] = Inr a"
  by (simp add: iadd_at_def)

lemma iadd_at_IndexError:
  fixes a :: "('a::plus) list"
  shows "\<exists>i \<in> set idx. length a \<le> i \<Longrightarrow> iadd_at a idx v = Inl IndexError"
  by (simp add: iadd_at_def)

subsection \<open>Sections of a sorted array\<close>

lemma sorted_partition:
  fixes f :: "'a \<Rightarrow> nat"
  assumes "sorted (map f zs)" "\<And>x y. f x \<le> f y \<Longrightarrow> P y \<Longrightarrow> P x"
  shows "filter P zs @ filter (\<lambda>z. \<not> P z) zs = zs"
  using assms(1)
proof (induction zs)
  case Nil
  show ?case by simp
next
  case (Cons z zs)
  then have le: "\<forall>y \<in> set zs. f z \<le> f y" and srt: "sorted (map f zs)"
    by simp_all
  show ?case
  proof (cases "P z")
    case True
    then show ?thesis using Cons.IH [OF srt] by simp
  next
    case False
    then have "\<forall>y \<in> set zs. \<not> P y"
      using le assms(2) by blast
    then have "filter P zs = []" "filter (\<lambda>z. \<not> P z) zs = zs"
      by (simp_all add: filter_empty_conv filter_id_conv)
    with False show ?thesis by simp
  qed
qed

lemma length_filter_le:
  fixes f :: "'a \<Rightarrow> nat"
  shows "length (filter (\<lambda>z. f z \<le> u) zs)
         = length (filter (\<lambda>z. f z < u) zs) + length (filter (\<lambda>z. f z = u) zs)"
  by (induction zs) auto

lemma sorted_slice:
  fixes f :: "'a \<Rightarrow> nat"
  assumes "sorted (map f zs)"
  shows "take (length (filter (\<lambda>z. f z \<le> u) zs) - length (filter (\<lambda>z. f z < u) zs))
              (drop (length (filter (\<lambda>z. f z < u) zs)) zs)
         = filter (\<lambda>z. f z = u) zs"
proof -
  let ?A = "filter (\<lambda>z. f z < u) zs"
  let ?B = "filter (\<lambda>z. \<not> f z < u) zs"
  let ?E = "filter (\<lambda>z. f z = u) zs"
  have "?A @ ?B = zs"
    using assms by (rule sorted_partition) simp
  then have dropA: "drop (length ?A) zs = ?B"
    by (simp add: append_eq_conv_conj)
  have "sorted (map f ?B)"
    using assms by (rule sorted_filter)
  then have "filter (\<lambda>z. f z \<le> u) ?B @ filter (\<lambda>z. \<not> f z \<le> u) ?B = ?B"
    by (rule sorted_partition) simp
  moreover have "filter (\<lambda>z. f z \<le> u) ?B = ?E"
  proof -
    have "(\<not> f z < u \<and> f z \<le> u) = (f z = u)" for z
      by auto
    then show ?thesis by simp
  qed
  ultimately have "take (length ?E) ?B = ?E"
    by (simp add: append_eq_conv_conj)
  then show ?thesis
    by (simp add: dropA length_filter_le)
qed

lemma first_index_sorted:
  assumes "sorted xs" "u \<in> set xs"
  shows "first_index xs u = length (filter (\<lambda>x. x < u) xs)"
  using assms
proof (induction xs)
  case Nil
  then show ?case by simp
next
  case (Cons x xs)
  show ?case
  proof (cases "x = u")
    case True
    then have "\<forall>y \<in> set xs. \<not> y < u"
      using Cons.prems(1) by auto
    then have "filter (\<lambda>x. x < u) xs = []"
      by (simp add: filter_empty_conv)
    with True show ?thesis by (simp add: first_index_def)
  next
    case False
    then have "u \<in> set xs" "x < u"
      using Cons.prems by auto
    moreover have "first_index xs u = length (filter (\<lambda>x. x < u) xs)"
      using Cons.prems \<open>u \<in> set xs\<close> by (intro Cons.IH) simp_all
    ultimately show ?thesis using False by (simp add: first_index_def)
  qed
qed

subsection \<open>Groups of equal pixel indices\<close>

lemma consecutive_values:
  fixes us :: "nat list"
  assumes "sorted us" "distinct us" "k + 1 < length us" "x \<in> set us"
  shows "x < us ! (k + 1) \<longleftrightarrow> x \<le> us ! k"
proof -
  obtain j where j: "j < length us" "x = us ! j"
    using assms(4) by (metis in_set_conv_nth)
  have strict: "us ! a < us ! b" if "a < b" "b < length us" for a b
  proof -
    have "us ! a \<le> us ! b"
      using assms(1) that by (intro sorted_nth_mono) simp_all
    moreover have "us ! a \<noteq> us ! b"
      using assms(2) that by (simp add: nth_eq_iff_index_eq)
    ultimately show ?thesis by simp
  qed
  show ?thesis
  proof (cases "j \<le> k")
    case True
    then have "us ! j \<le> us ! k"
      using assms(1,3) by (intro sorted_nth_mono) simp_all
    moreover have "us ! j < us ! (k + 1)"
      using True assms(3) by (intro strict) simp_all
    ultimately show ?thesis by (simp add: j)
  next
    case False
    then have "us ! (k + 1) \<le> us ! j"
      using assms(1) j by (intro sorted_nth_mono) simp_all
    moreover have "us ! k < us ! j"
      using False j by (intro strict) simp_all
    ultimately show ?thesis by (simp add: j)
  qed
qed

lemma length_split_np [simp]: "length (split_np a idx) = length idx + 1"
  by (simp add: split_np_def Let_def del: upt_Suc)

lemma nth_split_np:
  assumes "k < length idx + 1"
  shows "split_np a idx ! k
         = take ((0 # idx @ [length a]) ! (k + 1) - (0 # idx @ [length a]) ! k)
                (drop ((0 # idx @ [length a]) ! k) a)"
proof -
  have "[0..<length idx + 1] ! k = k"
    using assms by (metis add_0 nth_upt)
  moreover have "k < length [0..<length idx + 1]"
    using assms by (simp del: upt_Suc)
  ultimately show ?thesis
    unfolding split_np_def Let_def by (simp only: nth_map)
qed

lemma split_groups:
  fixes zs :: "(nat \<times> 'a) list"
  assumes "sorted (map fst zs)" "zs \<noteq> []"
  shows "split_np (map snd zs)
           (drop 1 (map (first_index (map fst zs)) (sort (remdups (map fst zs)))))
         = map (\<lambda>u. map snd (filter (\<lambda>z. fst z = u) zs)) (sort (remdups (map fst zs)))"
proof -
  let ?xs = "map fst zs"
  let ?us = "sort (remdups ?xs)"
  let ?lt = "\<lambda>u. length (filter (\<lambda>z. fst z < u) zs)"
  let ?le = "\<lambda>u. length (filter (\<lambda>z. fst z \<le> u) zs)"
  let ?start = "map (first_index ?xs) ?us"
  let ?dp = "0 # drop 1 ?start @ [length (map snd zs)]"
  have us: "sorted ?us" "distinct ?us" "set ?us = fst ` set zs"
    by simp_all
  have ne: "?us \<noteq> []"
    using assms(2) us(3) by (metis empty_is_image set_empty)
  have start: "?start = map ?lt ?us"
  proof (rule map_cong [OF refl])
    fix u assume "u \<in> set ?us"
    then have "u \<in> set ?xs" by simp
    then have "first_index ?xs u = length (filter (\<lambda>x. x < u) ?xs)"
      using assms(1) by (intro first_index_sorted)
    also have "\<dots> = ?lt u"
      by (simp add: filter_map comp_def)
    finally show "first_index ?xs u = ?lt u" .
  qed
  have least: "?lt (?us ! 0) = 0"
  proof -
    have "\<not> fst z < ?us ! 0" if "z \<in> set zs" for z
    proof -
      have "fst z \<in> set ?us" using that by simp
      then obtain j where "j < length ?us" "fst z = ?us ! j"
        by (metis in_set_conv_nth)
      then have "?us ! 0 \<le> fst z"
        using us(1) by (simp add: sorted_nth_mono)
      then show ?thesis by simp
    qed
    then show ?thesis
      by (simp add: filter_empty_conv)
  qed
  have dp: "?dp = map ?lt ?us @ [length zs]"
  proof -
    have "map ?lt ?us = ?lt (?us ! 0) # drop 1 (map ?lt ?us)"
      using ne by (cases ?us) simp_all
    then have "map ?lt ?us = 0 # drop 1 (map ?lt ?us)"
      using least by simp
    then show ?thesis
      unfolding start by simp
  qed
  have lo: "?dp ! k = ?lt (?us ! k)" if "k < length ?us" for k
    unfolding dp using that by (simp add: nth_append)
  have hi: "?dp ! (k + 1) = ?le (?us ! k)" if k: "k < length ?us" for k
  proof (cases "k + 1 < length ?us")
    case True
    have "?dp ! (k + 1) = ?lt (?us ! (k + 1))"
      unfolding dp using True by (simp add: nth_append)
    also have "\<dots> = ?le (?us ! k)"
    proof -
      have "filter (\<lambda>z. fst z < ?us ! (k + 1)) zs = filter (\<lambda>z. fst z \<le> ?us ! k) zs"
      proof (rule filter_cong [OF refl])
        fix z assume "z \<in> set zs"
        then have "fst z \<in> set ?us" by simp
        then show "(fst z < ?us ! (k + 1)) = (fst z \<le> ?us ! k)"
          using us(1,2) True by (intro consecutive_values)
      qed
      then show ?thesis by simp
    qed
    finally show ?thesis .
  next
    case False
    with k have last: "k + 1 = length ?us" by simp
    have "?dp ! (k + 1) = length zs"
      unfolding dp last by (simp add: nth_append)
    moreover have "filter (\<lambda>z. fst z \<le> ?us ! k) zs = zs"
    proof -
      have "fst z \<le> ?us ! k" if "z \<in> set zs" for z
      proof -
        have "fst z \<in> set ?us" using that by simp
        then obtain j where j: "j < length ?us" "fst z = ?us ! j"
          by (metis in_set_conv_nth)
        then have "j \<le> k" using last by simp
        then show ?thesis
          using us(1) k j by (simp add: sorted_nth_mono)
      qed
      then show ?thesis by (simp add: filter_id_conv)
    qed
    ultimately show ?thesis by simp
  qed
  have len: "length (drop 1 ?start) + 1 = length ?us"
    using ne by (cases ?us) simp_all
  show ?thesis
  proof (rule nth_equalityI)
    show "length (split_np (map snd zs) (drop 1 ?start))
          = length (map (\<lambda>u. map snd (filter (\<lambda>z. fst z = u) zs)) ?us)"
      using len by simp
  next
    fix k assume "k < length (split_np (map snd zs) (drop 1 ?start))"
    then have k: "k < length ?us"
      using len by simp
    then have k': "k < length (drop 1 ?start) + 1"
      using len by simp
    have "split_np (map snd zs) (drop 1 ?start) ! k
          = take (?dp ! (k + 1) - ?dp ! k) (drop (?dp ! k) (map snd zs))"
      using k' by (rule nth_split_np)
    also have "\<dots> = take (?le (?us ! k) - ?lt (?us ! k)) (drop (?lt (?us ! k)) (map snd zs))"
      by (simp only: lo [OF k] hi [OF k])
    also have "\<dots> = map snd (take (?le (?us ! k) - ?lt (?us ! k)) (drop (?lt (?us ! k)) zs))"
      by (simp add: take_map drop_map)
    also have "\<dots> = map snd (filter (\<lambda>z. fst z = ?us ! k) zs)"
      using assms(1) by (simp only: sorted_slice)
    finally show "split_np (map snd zs) (drop 1 ?start) ! k
          = map (\<lambda>u. map snd (filter (\<lambda>z. fst z = u) zs)) ?us ! k"
      using k by simp
  qed
qed

subsection \<open>One batch in closed form\<close>

lemma sorts_mset: "sorts a s \<Longrightarrow> mset s = mset [0..<length a]"
  unfolding sorts_def by (metis mset_sort)

lemma sorts_set: "sorts a s \<Longrightarrow> set s = {0..<length a}"
  by (metis sorts_mset set_mset_mset set_upt)

lemma mset_map_nth:
  assumes "mset s = mset [0..<n]"
  shows "mset (map h s) = mset (map h [0..<n])"
  using assms by (metis mset_map)

lemma mset_take_idx:
  assumes "sorts a s" "length a \<le> length b"
  shows "mset (zip (map (\<lambda>i. a ! i) s) (map (\<lambda>i. b ! i) s)) = mset (zip a b)"
proof -
  have "zip (map (\<lambda>i. a ! i) s) (map (\<lambda>i. b ! i) s) = map (\<lambda>i. (a ! i, b ! i)) s"
    by (induction s) simp_all
  moreover have "mset (map (\<lambda>i. (a ! i, b ! i)) s) = mset (map (\<lambda>i. (a ! i, b ! i)) [0..<length a])"
    using sorts_mset [OF assms(1)] by (rule mset_map_nth)
  moreover have "map (\<lambda>i. (a ! i, b ! i)) [0..<length a] = zip a b"
    using assms(2) by (intro nth_equalityI) simp_all
  ultimately show ?thesis by simp
qed


lemma take_idx_sorts:
  assumes "sorts a s" "length a \<le> length b"
  shows "take_idx b s = Inr (map (\<lambda>i. b ! i) s)"
  using sorts_set [OF assms(1)] assms(2) by (simp add: take_idx_def)

lemma count_list_cnt:
  "length xs = length vs \<Longrightarrow> count_list xs p = cnt (zip xs vs) p"
proof (induction xs arbitrary: vs)
  case Nil
  then show ?case by simp
next
  case (Cons x xs)
  then obtain v vs' where "vs = v # vs'" by (cases vs) simp_all
  with Cons show ?case by (simp add: cnt_Cons)
qed

lemma reduce_with_agg:
  assumes "sorts gal_pix s" "length gal_pix \<le> length gal_she"
    and "\<forall>p \<in> set gal_pix. p < length num \<and> p < length she"
  shows "reduce_with s (num, she) gal_pix gal_she = Inr (agg (num, she) (zip gal_pix gal_she))"
proof -
  let ?xs = "map (\<lambda>i. gal_pix ! i) s"
  let ?vs = "map (\<lambda>i. gal_she ! i) s"
  let ?zs = "zip ?xs ?vs"
  let ?us = "sort (remdups ?xs)"
  let ?start = "map (first_index ?xs) ?us"
  let ?counts = "map (count_list ?xs) ?us"
  let ?sums = "map sum_list (split_np ?vs (drop 1 ?start))"
  have tp: "take_idx gal_pix s = Inr ?xs"
    using take_idx_sorts [OF assms(1), of gal_pix] by simp
  have ts: "take_idx gal_she s = Inr ?vs"
    using assms(1,2) by (rule take_idx_sorts)
  have un: "unique ?xs = (?us, ?start, ?counts)"
    by (simp add: unique_def Let_def)
  have perm: "mset ?zs = mset (zip gal_pix gal_she)"
    using assms(1,2) by (rule mset_take_idx)
  have fst_zs: "map fst ?zs = ?xs" and snd_zs: "map snd ?zs = ?vs"
    by simp_all
  have "mset ?xs = mset (map (\<lambda>i. gal_pix ! i) [0..<length gal_pix])"
    using sorts_mset [OF assms(1)] by (rule mset_map_nth)
  then have "mset ?xs = mset gal_pix"
    by (simp only: map_nth)
  then have set_xs: "set ?xs = set gal_pix"
    by (rule mset_eq_setD)
  have set_us: "set ?us = set ?xs"
    by (simp only: set_sort set_remdups)
  have "set ?xs = set (map fst ?zs)"
    by (simp only: fst_zs)
  then have "set ?xs = fst ` set ?zs"
    by (simp only: set_map)
  then have us: "distinct ?us" "set ?us = set gal_pix" "set ?us = fst ` set ?zs"
    using set_xs set_us by (simp_all only: distinct_sort distinct_remdups)
  have in_num: "\<forall>i \<in> set ?us. i < length num" and in_she: "\<forall>i \<in> set ?us. i < length she"
    using assms(3) us(2) by simp_all
  have "iadd_at num ?us (map real ?counts)
        = Inr (map (\<lambda>p. if p \<in> set ?us then num ! p + real (count_list ?xs p) else num ! p)
                 [0..<length num])"
    using iadd_at_map [OF us(1) in_num, of "\<lambda>u. real (count_list ?xs u)"] by (simp add: comp_def)
  also have "map (\<lambda>p. if p \<in> set ?us then num ! p + real (count_list ?xs p) else num ! p)
                 [0..<length num]
        = map (\<lambda>p. num ! p + real (cnt ?zs p)) [0..<length num]"
  proof (rule map_cong [OF refl])
    fix p
    have "count_list ?xs p = cnt ?zs p"
      by (intro count_list_cnt) simp
    moreover have "cnt ?zs p = 0" if "p \<notin> set ?us"
      using that us(3) by (intro cnt_zero) simp
    ultimately show "(if p \<in> set ?us then num ! p + real (count_list ?xs p) else num ! p)
          = num ! p + real (cnt ?zs p)"
      by simp
  qed
  finally have num': "iadd_at num ?us (map real ?counts)
        = Inr (map (\<lambda>p. num ! p + real (cnt ?zs p)) [0..<length num])" .
  have she': "iadd_at she ?us ?sums = Inr (map (\<lambda>p. she ! p + gsum ?zs p) [0..<length she])"
  proof (cases "s = []")
    case True
    then have "iadd_at she ?us ?sums = Inr she"
      by (simp add: split_np_def iadd_at_empty)
    moreover have "map (\<lambda>p. she ! p + gsum ?zs p) [0..<length she] = she"
      using True by (simp add: map_nth)
    ultimately show ?thesis by simp
  next
    case False
    then have ne: "?zs \<noteq> []" by simp
    have srt: "sorted (map fst ?zs)"
      using assms(1) by (simp only: fst_zs) (simp add: sorts_def)
    have "split_np (map snd ?zs) (drop 1 (map (first_index (map fst ?zs)) (sort (remdups (map fst ?zs)))))
          = map (\<lambda>u. map snd (filter (\<lambda>z. fst z = u) ?zs)) (sort (remdups (map fst ?zs)))"
      using srt ne by (rule split_groups)
    then have "split_np ?vs (drop 1 ?start) = map (\<lambda>u. map snd (filter (\<lambda>z. fst z = u) ?zs)) ?us"
      by (simp only: fst_zs snd_zs)
    then have sums: "?sums = map (gsum ?zs) ?us"
      by (simp add: gsum_def comp_def)
    have "iadd_at she ?us (map (gsum ?zs) ?us)
          = Inr (map (\<lambda>p. if p \<in> set ?us then she ! p + gsum ?zs p else she ! p) [0..<length she])"
      using us(1) in_she by (rule iadd_at_map)
    also have "map (\<lambda>p. if p \<in> set ?us then she ! p + gsum ?zs p else she ! p) [0..<length she]
          = map (\<lambda>p. she ! p + gsum ?zs p) [0..<length she]"
    proof (rule map_cong [OF refl])
      fix p
      have "gsum ?zs p = 0" if "p \<notin> set ?us"
        using that us(3) by (intro gsum_zero) simp
      then show "(if p \<in> set ?us then she ! p + gsum ?zs p else she ! p) = she ! p + gsum ?zs p"
        by simp
    qed
    finally show ?thesis
      by (simp only: sums)
  qed
  have "reduce_with s (num, she) gal_pix gal_she = Inr (agg (num, she) ?zs)"
    unfolding reduce_with_def
    by (simp only: prod.case tp ts un num' she' bind_err_def sum.case agg_def)
  then show ?thesis
    by (simp only: agg_cong [OF perm])
qed

subsection \<open>The reduction and the linear scan\<close>

lemma reduce_with_error:
  assumes "sorts gal_pix s" "length gal_pix \<le> length gal_she"
    and "\<exists>p \<in> set gal_pix. \<not> (p < length num \<and> p < length she)"
  shows "reduce_with s (num, she) gal_pix gal_she = Inl IndexError"
proof -
  let ?xs = "map (\<lambda>i. gal_pix ! i) s"
  let ?vs = "map (\<lambda>i. gal_she ! i) s"
  let ?us = "sort (remdups ?xs)"
  let ?start = "map (first_index ?xs) ?us"
  let ?counts = "map (count_list ?xs) ?us"
  let ?sums = "map sum_list (split_np ?vs (drop 1 ?start))"
  have tp: "take_idx gal_pix s = Inr ?xs"
    using take_idx_sorts [OF assms(1), of gal_pix] by simp
  have ts: "take_idx gal_she s = Inr ?vs"
    using assms(1,2) by (rule take_idx_sorts)
  have un: "unique ?xs = (?us, ?start, ?counts)"
    by (simp add: unique_def Let_def)
  have "mset ?xs = mset (map (\<lambda>i. gal_pix ! i) [0..<length gal_pix])"
    using sorts_mset [OF assms(1)] by (rule mset_map_nth)
  then have "mset ?xs = mset gal_pix"
    by (simp only: map_nth)
  then have "set ?xs = set gal_pix"
    by (rule mset_eq_setD)
  then have set_us: "set ?us = set gal_pix"
    by (simp only: set_sort set_remdups)
  show ?thesis
  proof (cases "\<exists>i \<in> set ?us. length num \<le> i")
    case True
    then have "iadd_at num ?us (map real ?counts) = Inl IndexError"
      by (rule iadd_at_IndexError)
    then show ?thesis
      unfolding reduce_with_def by (simp only: prod.case tp un bind_err_def sum.case)
  next
    case False
    then have "\<forall>i \<in> set ?us. i < length num"
      by (meson not_le)
    then have "iadd_at num ?us (map (\<lambda>u. real (count_list ?xs u)) ?us)
          = Inr (map (\<lambda>p. if p \<in> set ?us then num ! p + real (count_list ?xs p) else num ! p)
                   [0..<length num])"
      by (intro iadd_at_map) simp_all
    then obtain num' where num': "iadd_at num ?us (map real ?counts) = Inr num'"
      by (simp add: comp_def)
    from False assms(3) have "\<exists>i \<in> set ?us. length she \<le> i"
      unfolding set_us by (meson not_le)
    then have "iadd_at she ?us ?sums = Inl IndexError"
      by (rule iadd_at_IndexError)
    then show ?thesis
      unfolding reduce_with_def by (simp only: prod.case tp ts un num' bind_err_def sum.case)
  qed
qed





subsection \<open>Order independence and additivity\<close>




subsection \<open>Pixels without galaxies\<close>

lemma reduce_with_Inr:
  assumes "sorts gal_pix s" "reduce_with s (num, she) gal_pix gal_she = Inr st'"
  shows "st' = agg (num, she) (zip gal_pix gal_she)"
proof -
  have len: "length gal_pix \<le> length gal_she"
  proof (rule ccontr)
    assume "\<not> length gal_pix \<le> length gal_she"
    then have "length gal_she \<in> set s"
      using sorts_set [OF assms(1)] by simp
    then have "\<not> (\<forall>i \<in> set s. i < length gal_she)"
      by auto
    then have ts: "take_idx gal_she s = Inl IndexError"
      unfolding take_idx_def by (rule if_not_P)
    have tp: "take_idx gal_pix s = Inr (map (\<lambda>i. gal_pix ! i) s)"
      using take_idx_sorts [OF assms(1), of gal_pix] by simp
    have "\<exists>e. reduce_with s (num, she) gal_pix gal_she = Inl e"
      unfolding reduce_with_def
      by (simp add: tp ts bind_err_def split: prod.splits sum.splits)
    with assms(2) show False by simp
  qed
  have "\<forall>p \<in> set gal_pix. p < length num \<and> p < length she"
  proof (rule ccontr)
    assume "\<not> (\<forall>p \<in> set gal_pix. p < length num \<and> p < length she)"
    then have "\<exists>p \<in> set gal_pix. \<not> (p < length num \<and> p < length she)"
      by simp
    then have "reduce_with s (num, she) gal_pix gal_she = Inl IndexError"
      by (rule reduce_with_error [OF assms(1) len])
    with assms(2) show False by simp
  qed
  then have "reduce_with s (num, she) gal_pix gal_she = Inr (agg (num, she) (zip gal_pix gal_she))"
    by (rule reduce_with_agg [OF assms(1) len])
  with assms(2) show ?thesis by simp
qed

lemma reachable_agg: "reachable npix st \<Longrightarrow> \<exists>pts. st = agg (zeros npix) pts"
proof (induction rule: reachable.induct)
  case start
  have "zeros npix = agg (zeros npix) []"
    by (simp add: zeros_def)
  then show ?case ..
next
  case (batch st gal_pix s gal_she st')
  then obtain pts where pts: "st = agg (zeros npix) pts"
    by blast
  obtain num she where st: "st = (num, she)" by (cases st)
  have "st' = agg st (zip gal_pix gal_she)"
    using batch.hyps(2,3) unfolding st by (rule reduce_with_Inr)
  then have "st' = agg (zeros npix) (pts @ zip gal_pix gal_she)"
    by (simp only: pts agg_append)
  then show ?case ..
qed

lemma agg_zeros_nth:
  assumes "p < npix"
  shows "fst (agg (zeros npix) pts) ! p = real (cnt pts p)"
    and "snd (agg (zeros npix) pts) ! p = gsum pts p"
  using assms by (simp_all add: agg_def zeros_def)

lemma cnt_zero_gsum: "cnt pts p = 0 \<Longrightarrow> gsum pts p = 0"
  by (simp add: cnt_def gsum_def)

text \<open>
  Claim C10. In every aggregate that the loop can reach from the zero maps by reducing any
  number of batches, a pixel whose galaxy number is zero has a shear sum of zero.
\<close>

theorem empty_pixel_has_no_shear:
  assumes "reachable npix (num, she)" "p < npix" "num ! p = 0"
  shows "she ! p = 0"
proof -
  obtain pts where pts: "(num, she) = agg (zeros npix) pts"
    using reachable_agg [OF assms(1)] by blast
  have "num ! p = real (cnt pts p)"
    using agg_zeros_nth(1) [OF assms(2), of pts] by (simp flip: pts)
  with assms(3) have "cnt pts p = 0"
    by simp
  then have "gsum pts p = 0"
    by (rule cnt_zero_gsum)
  moreover have "she ! p = gsum pts p"
    using agg_zeros_nth(2) [OF assms(2), of pts] by (simp flip: pts)
  ultimately show ?thesis by simp
qed

text \<open>One batch of three galaxies in the pixels 2, 0 and 2 of a map of three pixels.\<close>

theorem empty_pixel_has_no_shear_witness:
  "reachable 3 ([1, 0, 2], [5, 0, 7]) \<and> (1::nat) < 3 \<and> [1, 0, 2 :: real] ! 1 = 0
   \<and> [5, 0, 7 :: complex] ! 1 = 0"
proof -
  have "sorts [2, 0, 2] [1, 2, 0]"
    by code_simp
  moreover have "reduce_with [1, 2, 0] (zeros 3) [2, 0, 2] [3, 5, 4] = Inr ([1, 0, 2], [5, 0, 7])"
    by code_simp
  ultimately have r: "reachable 3 ([1, 0, 2], [5, 0, 7])"
    by (rule reachable.batch [OF reachable.start])
  have p: "(1::nat) < 3" by simp
  have z: "[1, 0, 2 :: real] ! 1 = 0" by simp
  from r p z empty_pixel_has_no_shear [OF r p z] show ?thesis by simp
qed

subsection \<open>Normalisation\<close>

text \<open>
  Claim C6, as the code has it. The maps are divided by the expected number of galaxies
  per pixel \<open>nbar\<close>, the same constant for every pixel, and never by the number a pixel
  has accumulated. For \<open>nbar \<noteq> 0\<close> every pixel reads as its accumulated entry over
  \<open>nbar\<close>; a pixel with count zero and shear sum zero reads as zero, and nothing is
  signalled.
\<close>

theorem normalise_by_expected_count:
  assumes "nbar \<noteq> 0" "p < length num" "p < length she"
  shows "fst (normalise nbar (num, she)) ! p = Some (num ! p / nbar)
    \<and> snd (normalise nbar (num, she)) ! p = Some (she ! p / complex_of_real nbar)
    \<and> (num ! p = 0 \<and> she ! p = 0 \<longrightarrow>
         fst (normalise nbar (num, she)) ! p = Some 0
         \<and> snd (normalise nbar (num, she)) ! p = Some 0)"
  using assms by (simp add: normalise_def div_np_def)

text \<open>A map of two pixels, the first of them empty, with \<open>nbar = 2\<close>.\<close>

theorem normalise_by_expected_count_witness:
  "(2::real) \<noteq> 0 \<and> (0::nat) < length [0, 4 :: real] \<and> 0 < length [0, 6 :: complex]
   \<and> fst (normalise 2 ([0, 4], [0, 6])) ! 0 = Some 0
   \<and> snd (normalise 2 ([0, 4], [0, 6])) ! 0 = Some 0
   \<and> fst (normalise 2 ([0, 4], [0, 6])) ! 1 = Some 2"
  using normalise_by_expected_count [of 2 0 "[0, 4]" "[0, 6]"]
    normalise_by_expected_count [of 2 1 "[0, 4]" "[0, 6]"]
  by simp

text \<open>
  The first pixel of that map has count zero. Its normalised entries are the numbers
  zero: the read is an ordinary value and not a signalled division by zero.
\<close>

theorem empty_bin_read_counterexample:
  "[0, 4 :: real] ! 0 = 0 \<and> normalise 2 ([0, 4], [0, 6]) = ([Some 0, Some 2], [Some 0, Some 3])"
  by (simp add: normalise_def div_np_def)

section \<open>Properties of the shear transform\<close>

lemma length_fl [simp]: "length (fl lmax) = lmax + 1"
  by (simp add: fl_def)










end
